theory Spec2Isabelle
  imports Main
begin

section \<open>Strings\<close>

text \<open>
  A JavaScript string is modelled as a \<open>string\<close>: a list of characters, one per code
  unit, so the model covers the code units 0 to 255. The string methods used by the
  page module (\<open>src/pages/dashboard/overview/index.tsx\<close>) are written out below.
\<close>

definition startsWith :: "string \<Rightarrow> string \<Rightarrow> bool" where
  "startsWith s p = (take (length p) s = p)"


fun tails :: "'a list \<Rightarrow> 'a list list" where
  "tails [] = [[]]"
| "tails (x # xs) = (x # xs) # tails xs"

definition includes_str :: "string \<Rightarrow> string \<Rightarrow> bool" where
  "includes_str s p = list_ex (\<lambda>t. startsWith t p) (tails s)"

text \<open>
  White space as \<open>\s\<close> and \<open>trim\<close> read it, within the code units of the model: tab,
  line feed, vertical tab, form feed, carriage return, space and no-break space.
\<close>

definition isSpace :: "char \<Rightarrow> bool" where
  "isSpace c =
     (c \<in> set [CHR 0x09, CHR 0x0A, CHR 0x0B, CHR 0x0C, CHR 0x0D, CHR 0x20, CHR 0xA0])"

definition trim :: "string \<Rightarrow> string" where
  "trim s = rev (dropWhile isSpace (rev (dropWhile isSpace s)))"

text \<open>
  Letter case. The module compares with \<open>newsletter\<close> after \<open>toLowerCase\<close> and matches
  its style patterns under the \<open>i\<close> flag; for the letters of those patterns only the
  ASCII capitals fold to them.
\<close>

definition toLowerChar :: "char \<Rightarrow> char" where
  "toLowerChar c =
     (case map_of (zip ''ABCDEFGHIJKLMNOPQRSTUVWXYZ'' ''abcdefghijklmnopqrstuvwxyz'') c of
        Some d \<Rightarrow> d
      | None \<Rightarrow> c)"

definition toLowerCase :: "string \<Rightarrow> string" where
  "toLowerCase s = map toLowerChar s"

section \<open>The backend origin and the URL rewriter\<close>

text \<open>\<open>API_BASE\<close> is the constant exported by the auth store.\<close>

definition API_BASE :: string where
  "API_BASE = ''https://gcdev.m.frappe.cloud''"

definition fixRelativeUrl :: "string \<Rightarrow> string" where
  "fixRelativeUrl url =
     (if startsWith url ''http'' \<or> startsWith url ''data:'' then url
      else API_BASE @ (if startsWith url ''/'' then url else ''/'' @ url))"



section \<open>Path matching\<close>





section \<open>Regular expressions of the module\<close>

text \<open>
  Each regular expression of the module is written as a matcher: a function that tries
  the pattern at the start of a string and returns what follows the match. The
  patterns have no alternative that backtracking could reach (a greedy class is always
  followed by a character outside it), so one left-to-right reading decides a match.
\<close>

text \<open>A literal, compared letter by letter without regard to case (flag \<open>i\<close>).\<close>

fun match_ci :: "string \<Rightarrow> string \<Rightarrow> string option" where
  "match_ci [] s = Some s"
| "match_ci (a # as) [] = None"
| "match_ci (a # as) (c # cs) =
     (if toLowerChar c = toLowerChar a then match_ci as cs else None)"

text \<open>The pattern \<^verbatim>\<open>/name\s*:[^;]+;?/i\<close> for a property name.\<close>

definition decl_re :: "string \<Rightarrow> string \<Rightarrow> string option" where
  "decl_re name s =
     (case match_ci name s of
        None \<Rightarrow> None
      | Some r \<Rightarrow>
          (case dropWhile isSpace r of
             [] \<Rightarrow> None
           | c # v \<Rightarrow>
               if c \<noteq> CHR '':'' then None
               else if takeWhile (\<lambda>d. d \<noteq> CHR '';'') v = [] then None
               else Some (case dropWhile (\<lambda>d. d \<noteq> CHR '';'') v of
                            [] \<Rightarrow> []
                          | semi # rest \<Rightarrow> rest)))"

text \<open>The pattern \<^verbatim>\<open>/scale\([^)]+\)/i\<close>.\<close>

definition scale_re :: "string \<Rightarrow> string option" where
  "scale_re s =
     (case match_ci ''scale('' s of
        None \<Rightarrow> None
      | Some r \<Rightarrow>
          if takeWhile (\<lambda>d. d \<noteq> CHR '')'') r = [] then None
          else (case dropWhile (\<lambda>d. d \<noteq> CHR '')'') r of
                  [] \<Rightarrow> None
                | paren # rest \<Rightarrow> Some rest))"

text \<open>
  The pattern \<^verbatim>\<open>/url\(['"]?([^'")]+)['"]?\)/\<close> (case matters here): the captured URL
  and what follows the match.
\<close>

definition isQuote :: "char \<Rightarrow> bool" where
  "isQuote c = (c = CHR 0x27 \<or> c = CHR 0x22)"

definition url_re :: "string \<Rightarrow> (string \<times> string) option" where
  "url_re s =
     (if startsWith s ''url('' then
        (let r = drop 4 s;
             r1 = (case r of [] \<Rightarrow> [] | q # r' \<Rightarrow> if isQuote q then r' else r);
             url = takeWhile (\<lambda>d. \<not> isQuote d \<and> d \<noteq> CHR '')'') r1;
             r2 = dropWhile (\<lambda>d. \<not> isQuote d \<and> d \<noteq> CHR '')'') r1;
             r3 = (case r2 of [] \<Rightarrow> [] | q # r' \<Rightarrow> if isQuote q then r' else r2)
         in if url = [] then None
            else (case r3 of
                    [] \<Rightarrow> None
                  | p # rest \<Rightarrow> if p = CHR '')'' then Some (url, rest) else None))
      else None)"

text \<open>
  \<open>String.prototype.replace\<close> with a global pattern: the string is read from the left;
  where the pattern matches, the replacement is written and reading goes on after the
  match; elsewhere the character is copied. The matcher gives the replacement and the
  rest. Every pattern of the module consumes at least one character, so the rule of
  JavaScript for an empty match is never used; a matcher that consumed nothing would
  have its character copied.
\<close>

fun replace_g :: "(string \<Rightarrow> (string \<times> string) option) \<Rightarrow> string \<Rightarrow> string" where
  "replace_g m [] = []"
| "replace_g m (c # cs) =
     (case m (c # cs) of
        None \<Rightarrow> c # replace_g m cs
      | Some (rep, rest) \<Rightarrow>
          if length rest \<le> length cs then rep @ replace_g m rest
          else c # replace_g m cs)"

definition replaceAll :: "(string \<Rightarrow> string option) \<Rightarrow> string \<Rightarrow> string \<Rightarrow> string" where
  "replaceAll re rep s = replace_g (\<lambda>t. map_option (Pair rep) (re t)) s"

section \<open>The style sanitizer\<close>

definition sanitizeStyles :: "string \<Rightarrow> string" where
  "sanitizeStyles styleContent =
     replaceAll scale_re ''scale(1)''
       (replaceAll (decl_re ''zoom'') ''''
         (replaceAll (decl_re ''-o-transform'') ''''
           (replaceAll (decl_re ''-ms-transform'') ''''
             (replaceAll (decl_re ''-moz-transform'') ''''
               (replaceAll (decl_re ''-webkit-transform'') ''''
                 (replaceAll (decl_re ''transform'') '''' styleContent))))))"

text \<open>A pattern occurs in a text when it matches at some position of it.\<close>

definition has_match :: "(string \<Rightarrow> string option) \<Rightarrow> string \<Rightarrow> bool" where
  "has_match re s = list_ex (\<lambda>t. re t \<noteq> None) (tails s)"

text \<open>
  The rest of a declaration head, read at the start of a string: the letters \<open>nm\<close>
  still to come, white space, the colon, and then whatever \<open>fin\<close> asks of the text
  after the colon.
\<close>

fun declTail :: "(string \<Rightarrow> bool) \<Rightarrow> string \<Rightarrow> string \<Rightarrow> bool" where
  "declTail fin [] [] = False"
| "declTail fin [] (c # cs) = (if c = CHR '':'' then fin cs else isSpace c \<and> declTail fin [] cs)"
| "declTail fin (a # as) [] = False"
| "declTail fin (a # as) (c # cs) = (toLowerChar c = toLowerChar a \<and> declTail fin as cs)"

fun proper_suffixes :: "'a list \<Rightarrow> 'a list list" where
  "proper_suffixes [] = []"
| "proper_suffixes (x # xs) = xs # proper_suffixes xs"

text \<open>
  A text begins with a cut head of \<open>name\<close> when it begins with the end of the name (any
  proper suffix, the empty one too), white space and a colon: what is left of a
  declaration head whose beginning stands elsewhere.
\<close>

definition cutHead :: "string \<Rightarrow> string \<Rightarrow> bool" where
  "cutHead name v = list_ex (\<lambda>nm. declTail (\<lambda>_. True) nm v) (proper_suffixes name)"

text \<open>No semicolon of the text is directly followed by a cut head of \<open>name\<close>.\<close>

fun spliceFree :: "string \<Rightarrow> string \<Rightarrow> bool" where
  "spliceFree name [] = True"
| "spliceFree name (c # cs) =
     ((if c = CHR '';'' then \<not> cutHead name cs else True) \<and> spliceFree name cs)"

text \<open>
  What the declaration pattern asks after the colon: a first character of the value,
  which is any character but a semicolon.
\<close>

definition valueStarts :: "string \<Rightarrow> bool" where
  "valueStarts v = (case v of [] \<Rightarrow> False | d # rest \<Rightarrow> d \<noteq> CHR '';'')"

text \<open>
  The rest of the scale pattern, read at the start of a string: the letters \<open>nm\<close> still
  to come, a first character of the argument, and a closing parenthesis further on.
\<close>

fun scaleTail :: "string \<Rightarrow> string \<Rightarrow> bool" where
  "scaleTail [] [] = False"
| "scaleTail [] (d # v) = (d \<noteq> CHR '')'' \<and> CHR '')'' \<in> set v)"
| "scaleTail (a # as) [] = False"
| "scaleTail (a # as) (c # cs) = (toLowerChar c = toLowerChar a \<and> scaleTail as cs)"

section \<open>The parsed document\<close>

text \<open>
  \<open>DOMParser\<close> and the serializer behind \<open>innerHTML\<close> belong to the browser; the
  extraction functions take them as parameters. A parsed document is the tree of its
  root element: elements with a tag name (lower case, as the HTML parser leaves it),
  their attributes in order, and their children; and text.
\<close>

datatype node =
    Element (tagName: string) (attributes: "(string \<times> string) list") (childNodes: "node list")
  | Text string

text \<open>The nodes below a node and the nodes of a document, in document order.\<close>

fun descendants :: "node \<Rightarrow> node list" where
  "descendants (Text s) = []"
| "descendants (Element t as cs) = concat (map (\<lambda>c. c # descendants c) cs)"

fun withParents :: "node option \<Rightarrow> node \<Rightarrow> (node \<times> node option) list" where
  "withParents p (Text s) = [(Text s, p)]"
| "withParents p (Element t as cs) =
     (Element t as cs, p) # concat (map (withParents (Some (Element t as cs))) cs)"

fun textContent :: "node \<Rightarrow> string" where
  "textContent (Text s) = s"
| "textContent (Element t as cs) = concat (map textContent cs)"

definition getAttribute :: "string \<Rightarrow> node \<Rightarrow> string option" where
  "getAttribute name n = (case n of Element t as cs \<Rightarrow> map_of as name | Text s \<Rightarrow> None)"

fun setAttr :: "string \<Rightarrow> string \<Rightarrow> (string \<times> string) list \<Rightarrow> (string \<times> string) list" where
  "setAttr name v [] = [(name, v)]"
| "setAttr name v ((k, w) # as) = (if k = name then (k, v) # as else (k, w) # setAttr name v as)"

definition setAttribute :: "string \<Rightarrow> string \<Rightarrow> node \<Rightarrow> node" where
  "setAttribute name v n =
     (case n of Element t as cs \<Rightarrow> Element t (setAttr name v as) cs | Text s \<Rightarrow> Text s)"

text \<open>The tokens of a class attribute: split at ASCII white space.\<close>

definition isAsciiWhitespace :: "char \<Rightarrow> bool" where
  "isAsciiWhitespace c = (c \<in> set [CHR 0x09, CHR 0x0A, CHR 0x0C, CHR 0x0D, CHR 0x20])"

definition tokens :: "string \<Rightarrow> string list" where
  "tokens s =
     filter (\<lambda>w. w \<noteq> [])
       (foldr (\<lambda>c acc. if isAsciiWhitespace c then [] # acc
                        else (case acc of [] \<Rightarrow> [[c]] | w # ws \<Rightarrow> (c # w) # ws)) s [[]])"

definition classList :: "node \<Rightarrow> string list" where
  "classList n = (case getAttribute ''class'' n of None \<Rightarrow> [] | Some v \<Rightarrow> tokens v)"

text \<open>
  The selectors of the module, as tests on a node: a tag name, a class, an attribute,
  and \<^verbatim>\<open>link[rel="stylesheet"]\<close> (HTML compares the value of \<open>rel\<close> without regard
  to case).
\<close>

definition isTag :: "string \<Rightarrow> node \<Rightarrow> bool" where
  "isTag t n = (case n of Element t' as cs \<Rightarrow> t' = t | Text s \<Rightarrow> False)"

definition hasClass :: "string \<Rightarrow> node \<Rightarrow> bool" where
  "hasClass c n = (case n of Element t as cs \<Rightarrow> c \<in> set (classList n) | Text s \<Rightarrow> False)"

definition hasAttribute :: "string \<Rightarrow> node \<Rightarrow> bool" where
  "hasAttribute name n = (getAttribute name n \<noteq> None)"

definition isStylesheetLink :: "node \<Rightarrow> bool" where
  "isStylesheetLink n =
     (isTag ''link'' n \<and>
      (case getAttribute ''rel'' n of None \<Rightarrow> False | Some v \<Rightarrow> toLowerCase v = ''stylesheet''))"

definition querySelectorAll :: "(node \<Rightarrow> bool) \<Rightarrow> node \<Rightarrow> node list" where
  "querySelectorAll sel n = filter sel (descendants n)"

definition querySelector :: "(node \<Rightarrow> bool) \<Rightarrow> node \<Rightarrow> node option" where
  "querySelector sel n = (case querySelectorAll sel n of [] \<Rightarrow> None | x # xs \<Rightarrow> Some x)"

text \<open>On the document the root element is searched too.\<close>

definition documentQuerySelectorAll :: "(node \<Rightarrow> bool) \<Rightarrow> node \<Rightarrow> node list" where
  "documentQuerySelectorAll sel doc = filter sel (doc # descendants doc)"

definition documentQuerySelector :: "(node \<Rightarrow> bool) \<Rightarrow> node \<Rightarrow> node option" where
  "documentQuerySelector sel doc =
     (case documentQuerySelectorAll sel doc of [] \<Rightarrow> None | x # xs \<Rightarrow> Some x)"

text \<open>
  \<open>document.body\<close>: the first \<open>body\<close> or \<open>frameset\<close> child of the \<open>html\<close> root, if any.
\<close>

definition documentBody :: "node \<Rightarrow> node option" where
  "documentBody doc =
     (case doc of
        Element t as cs \<Rightarrow>
          if t = ''html'' then List.find (\<lambda>c. isTag ''body'' c \<or> isTag ''frameset'' c) cs
          else None
      | Text s \<Rightarrow> None)"

text \<open>What the \<open>catch\<close> clauses of the two extraction functions catch.\<close>

datatype error = ParseFailure

section \<open>Navigation extraction\<close>

record SidebarItem =
  href :: string
  linkText :: string
  isActive :: bool

definition SIDEBAR_SELECTORS :: "(node \<Rightarrow> bool) list" where
  "SIDEBAR_SELECTORS =
     [hasClass ''sidebar-column'', hasClass ''web-sidebar'', hasClass ''sidebar-items'']"

text \<open>The loop over the selectors: the first selector with a match gives the container.\<close>

fun findContainer :: "(node \<Rightarrow> bool) list \<Rightarrow> node \<Rightarrow> node option" where
  "findContainer [] doc = None"
| "findContainer (selector # rest) doc =
     (case documentQuerySelector selector doc of
        Some container \<Rightarrow> Some container
      | None \<Rightarrow> findContainer rest doc)"

text \<open>
  The container: a match of the selectors, or else the parent element of the first
  element of class \<open>list-unstyled\<close> (the root element has no parent element).
\<close>

definition sidebarContainer :: "node \<Rightarrow> node option" where
  "sidebarContainer doc =
     (case findContainer SIDEBAR_SELECTORS doc of
        Some container \<Rightarrow> Some container
      | None \<Rightarrow>
          (case filter (\<lambda>(n, p). hasClass ''list-unstyled'' n) (withParents None doc) of
             [] \<Rightarrow> None
           | (n, p) # others \<Rightarrow> p))"

text \<open>The body of the \<open>forEach\<close> over the links: one link is tested and pushed.\<close>

definition pushLink :: "SidebarItem list \<Rightarrow> node \<Rightarrow> SidebarItem list" where
  "pushLink items link =
     (let href = getAttribute ''href'' link;
          text = trim (textContent link);
          isActive = (''active'' \<in> set (classList link))
      in case href of
           None \<Rightarrow> items
         | Some h \<Rightarrow>
             if h \<noteq> [] \<and> text \<noteq> [] \<and>
                \<not> includes_str (toLowerCase text) ''newsletter'' \<and>
                \<not> includes_str h ''/newsletters''
             then items @ [\<lparr>href = h, linkText = text, isActive = isActive\<rparr>]
             else items)"

text \<open>
  The same test and the same entry, for one link on its own: a link is kept when its
  \<open>href\<close> and its trimmed text are not empty, the text does not contain
  \<open>newsletter\<close> in any letter case, and the \<open>href\<close> does not contain
  \<open>/newsletters\<close>.
\<close>

definition keptLink :: "node \<Rightarrow> bool" where
  "keptLink link =
     (case getAttribute ''href'' link of
        None \<Rightarrow> False
      | Some h \<Rightarrow>
          h \<noteq> [] \<and> trim (textContent link) \<noteq> [] \<and>
          \<not> includes_str (toLowerCase (trim (textContent link))) ''newsletter'' \<and>
          \<not> includes_str h ''/newsletters'')"

definition linkItem :: "node \<Rightarrow> SidebarItem" where
  "linkItem link =
     \<lparr>href = (case getAttribute ''href'' link of None \<Rightarrow> [] | Some h \<Rightarrow> h),
      linkText = trim (textContent link),
      isActive = (''active'' \<in> set (classList link))\<rparr>"

text \<open>
  The selector list \<^verbatim>\<open>.sidebar-item a, a\<close> selects the union of its two parts, and
  the first part selects \<open>a\<close> elements only: the links are the \<open>a\<close> elements below the
  container, each once, in document order.
\<close>

definition extractSidebarItems_try ::
    "(string \<Rightarrow> node option) \<Rightarrow> string \<Rightarrow> error + SidebarItem list" where
  "extractSidebarItems_try parseFromString html =
     (case parseFromString html of
        None \<Rightarrow> Inl ParseFailure
      | Some doc \<Rightarrow>
          (case sidebarContainer doc of
             None \<Rightarrow> Inr []
           | Some container \<Rightarrow>
               Inr (foldl pushLink [] (querySelectorAll (isTag ''a'') container))))"

definition extractSidebarItems :: "(string \<Rightarrow> node option) \<Rightarrow> string \<Rightarrow> SidebarItem list" where
  "extractSidebarItems parseFromString html =
     (case extractSidebarItems_try parseFromString html of
        Inl e \<Rightarrow> []
      | Inr items \<Rightarrow> items)"

section \<open>Content extraction\<close>

record ExtractedContent =
  content :: string
  styles :: string

definition CONTENT_SELECTORS :: "(node \<Rightarrow> bool) list" where
  "CONTENT_SELECTORS = [isTag ''main'', hasClass ''main-content'']"

fun removeScripts :: "node \<Rightarrow> node" where
  "removeScripts (Text s) = Text s"
| "removeScripts (Element t as cs) =
     Element t as (map removeScripts (filter (\<lambda>c. \<not> isTag ''script'' c) cs))"

text \<open>A change made to every node below a node (the node itself is left as it is).\<close>

fun mapDescendants :: "(node \<Rightarrow> node) \<Rightarrow> node \<Rightarrow> node" where
  "mapDescendants f (Text s) = Text s"
| "mapDescendants f (Element t as cs) = Element t as (map (\<lambda>c. f (mapDescendants f c)) cs)"

definition fixImage :: "node \<Rightarrow> node" where
  "fixImage img =
     (if isTag ''img'' img then
        (case getAttribute ''src'' img of
           None \<Rightarrow> img
         | Some src \<Rightarrow> if src \<noteq> [] then setAttribute ''src'' (fixRelativeUrl src) img else img)
      else img)"

definition fixUrlMatch :: "string \<Rightarrow> (string \<times> string) option" where
  "fixUrlMatch t =
     (case url_re t of
        None \<Rightarrow> None
      | Some (url, rest) \<Rightarrow>
          Some (''url('' @ [CHR 0x27] @ fixRelativeUrl url @ [CHR 0x27] @ '')'', rest))"

definition fixInlineStyle :: "node \<Rightarrow> node" where
  "fixInlineStyle element =
     (case getAttribute ''style'' element of
        None \<Rightarrow> element
      | Some style \<Rightarrow> setAttribute ''style'' (replace_g fixUrlMatch style) element)"

definition mainContent :: "node \<Rightarrow> node" where
  "mainContent doc =
     (let body = (case documentBody doc of Some b \<Rightarrow> b | None \<Rightarrow> doc)
      in case List.find (\<lambda>r. r \<noteq> None) (map (\<lambda>sel. querySelector sel body) CONTENT_SELECTORS) of
           Some (Some m) \<Rightarrow> m
         | _ \<Rightarrow> body)"

text \<open>The copy of the main content after the three passes over it.\<close>

definition contentClone :: "node \<Rightarrow> node" where
  "contentClone doc =
     mapDescendants fixInlineStyle (mapDescendants fixImage (removeScripts (mainContent doc)))"

definition collectStyles :: "(node \<Rightarrow> string) \<Rightarrow> node \<Rightarrow> string" where
  "collectStyles innerHTML doc =
     (let styles1 =
            foldl (\<lambda>styles style. styles @ sanitizeStyles (innerHTML style) @ [CHR 0x0A]) []
              (documentQuerySelectorAll (isTag ''style'') doc)
      in foldl (\<lambda>styles link.
                  case getAttribute ''href'' link of
                    None \<Rightarrow> styles
                  | Some h \<Rightarrow>
                      if h \<noteq> [] then
                        styles @ ''@import url('' @ [CHR 0x27] @ fixRelativeUrl h @ [CHR 0x27]
                          @ '');'' @ [CHR 0x0A]
                      else styles)
           styles1 (documentQuerySelectorAll isStylesheetLink doc))"

definition extractStylesAndContent_try ::
    "(string \<Rightarrow> node option) \<Rightarrow> (node \<Rightarrow> string) \<Rightarrow> string \<Rightarrow> error + ExtractedContent" where
  "extractStylesAndContent_try parseFromString innerHTML html =
     (case parseFromString html of
        None \<Rightarrow> Inl ParseFailure
      | Some doc \<Rightarrow>
          Inr \<lparr>content = innerHTML (contentClone doc), styles = collectStyles innerHTML doc\<rparr>)"

definition extractStylesAndContent ::
    "(string \<Rightarrow> node option) \<Rightarrow> (node \<Rightarrow> string) \<Rightarrow> string \<Rightarrow> ExtractedContent" where
  "extractStylesAndContent parseFromString innerHTML html =
     (case extractStylesAndContent_try parseFromString innerHTML html of
        Inl e \<Rightarrow> \<lparr>content = html, styles = ''''\<rparr>
      | Inr r \<Rightarrow> r)"

section \<open>Clicks in the content fragment\<close>

text \<open>
  The router's location and the browser's \<open>URL\<close> object (the constructor is a
  parameter; \<open>None\<close> stands for its \<open>TypeError\<close>).
\<close>

record Location =
  pathname :: string
  search :: string
  hash :: string

record URL = Location +
  origin :: string

definition isInternalLink :: "(string \<Rightarrow> URL option) \<Rightarrow> URL \<Rightarrow> bool" where
  "isInternalLink newURL url =
     (case newURL API_BASE of
        None \<Rightarrow> False
      | Some base \<Rightarrow> origin url = origin base \<or> startsWith (pathname url) ''/'')"

datatype click_effect = PreventDefault | StopPropagation | Navigate string

text \<open>
  The handler, given the \<open>href\<close> of the closest anchor of the click target (\<open>None\<close> when
  there is no anchor): the effects on the event and on the router, in order.
\<close>

definition handleContentClick :: "(string \<Rightarrow> URL option) \<Rightarrow> string option \<Rightarrow> click_effect list" where
  "handleContentClick newURL anchorHref =
     (case anchorHref of
        None \<Rightarrow> []
      | Some h \<Rightarrow>
          if h = [] then []
          else (case newURL h of
                  None \<Rightarrow> []
                | Some url \<Rightarrow>
                    if isInternalLink newURL url
                    then [PreventDefault, StopPropagation,
                          Navigate (pathname url @ search url @ hash url)]
                    else []))"

section \<open>The route-change effect\<close>

definition SKIP_ROUTES :: "string list" where
  "SKIP_ROUTES = [''/'', ''/login'']"

datatype load_action =
    SetError "string option"
  | SetIsContentLoading bool
  | FetchWithAuth string string

text \<open>A token is a string or null; \<open>!token\<close> holds for null and for the empty string.\<close>

definition noToken :: "string option \<Rightarrow> bool" where
  "noToken token = (case token of None \<Rightarrow> True | Some t \<Rightarrow> t = [])"

text \<open>\<open>fetchPageContent\<close> up to the request it sends.\<close>

definition fetchPageContent :: "string option \<Rightarrow> string \<Rightarrow> load_action list" where
  "fetchPageContent token url =
     (case token of
        None \<Rightarrow> [SetError (Some ''No authentication token available'')]
      | Some t \<Rightarrow>
          if t = [] then [SetError (Some ''No authentication token available'')]
          else [SetIsContentLoading True, SetError None,
                FetchWithAuth (if startsWith url ''http'' then url else API_BASE @ url) t])"

definition loadContentEffect :: "Location \<Rightarrow> string option \<Rightarrow> load_action list" where
  "loadContentEffect location token =
     (let currentPath = pathname location @ search location @ hash location
      in if currentPath \<in> set SKIP_ROUTES \<or> noToken token then []
         else fetchPageContent token currentPath)"

text \<open>
  A location as the router gives it: the query string is empty or begins with \<open>?\<close>, the
  fragment is empty or begins with \<open>#\<close>.
\<close>

definition wellFormedLocation :: "Location \<Rightarrow> bool" where
  "wellFormedLocation location =
     ((search location = [] \<or> hd (search location) = CHR ''?'') \<and>
      (hash location = [] \<or> hd (hash location) = CHR ''#''))"

section \<open>Properties of the URL rewriter\<close>

lemma startsWith_append: "startsWith (p @ s) p"
  by (simp add: startsWith_def)










section \<open>Properties of the path match\<close>









section \<open>Properties of the route-change effect\<close>

text \<open>
  Claim C10. With a token present, the effect does nothing exactly when the whole of
  path, query and fragment is \<open>/\<close> or \<open>/login\<close>; any other route sends the request; and a
  route of path \<open>/\<close> or \<open>/login\<close> with a query string or a fragment is such a route.
\<close>

theorem loadContentEffect_skip:
  assumes "token = Some t" and "t \<noteq> []"
  shows "(loadContentEffect location token = [] \<longleftrightarrow>
            pathname location @ search location @ hash location \<in> {''/'', ''/login''}) \<and>
         (pathname location @ search location @ hash location \<notin> {''/'', ''/login''} \<longrightarrow>
            (\<exists>url. loadContentEffect location token =
               [SetIsContentLoading True, SetError None, FetchWithAuth url t])) \<and>
         (wellFormedLocation location \<and> pathname location \<in> {''/'', ''/login''} \<and>
          search location @ hash location \<noteq> [] \<longrightarrow>
            loadContentEffect location token =
              [SetIsContentLoading True, SetError None,
               FetchWithAuth (API_BASE @ pathname location @ search location @ hash location) t])"
proof (intro conjI impI)
  show "loadContentEffect location token = [] \<longleftrightarrow>
          pathname location @ search location @ hash location \<in> {''/'', ''/login''}"
    using assms
    by (simp add: loadContentEffect_def SKIP_ROUTES_def noToken_def fetchPageContent_def Let_def)
next
  assume "pathname location @ search location @ hash location \<notin> {''/'', ''/login''}"
  with assms show "\<exists>url. loadContentEffect location token =
      [SetIsContentLoading True, SetError None, FetchWithAuth url t]"
    by (simp add: loadContentEffect_def SKIP_ROUTES_def noToken_def fetchPageContent_def Let_def)
next
  assume h: "wellFormedLocation location \<and> pathname location \<in> {''/'', ''/login''} \<and>
      search location @ hash location \<noteq> []"
  define x where "x = search location @ hash location"
  from h have x: "x \<noteq> []" "hd x = CHR ''?'' \<or> hd x = CHR ''#''"
    unfolding x_def wellFormedLocation_def by (auto simp: hd_append)
  then obtain c y where xy: "x = c # y" "c = CHR ''?'' \<or> c = CHR ''#''"
    by (cases x) auto
  from h have p: "pathname location = ''/'' \<or> pathname location = ''/login''"
    by simp
  have cp: "pathname location @ search location @ hash location = pathname location @ x"
    by (simp add: x_def)
  from p xy have notskip: "pathname location @ x \<notin> {''/'', ''/login''}"
    by auto
  from p have nohttp: "\<not> startsWith (pathname location @ x) ''http''"
    by (auto simp: startsWith_def)
  show "loadContentEffect location token =
      [SetIsContentLoading True, SetError None,
       FetchWithAuth (API_BASE @ pathname location @ search location @ hash location) t]"
    unfolding cp using assms notskip nohttp
    by (simp add: loadContentEffect_def SKIP_ROUTES_def noToken_def fetchPageContent_def
        Let_def cp)
qed

theorem loadContentEffect_skip_witness:
  "loadContentEffect \<lparr>pathname = ''/login'', search = ''?next=/x'', hash = ''''\<rparr> (Some ''abc'') =
     [SetIsContentLoading True, SetError None,
      FetchWithAuth ''https://gcdev.m.frappe.cloud/login?next=/x'' ''abc''] \<and>
   wellFormedLocation \<lparr>pathname = ''/login'', search = ''?next=/x'', hash = ''''\<rparr> \<and>
   loadContentEffect \<lparr>pathname = ''/login'', search = '''', hash = ''''\<rparr> (Some ''abc'') = []"
  using loadContentEffect_skip[of "Some ''abc''" "''abc''"
      "\<lparr>pathname = ''/login'', search = ''?next=/x'', hash = ''''\<rparr>"]
    loadContentEffect_skip[of "Some ''abc''" "''abc''"
      "\<lparr>pathname = ''/login'', search = '''', hash = ''''\<rparr>"]
  by (simp add: wellFormedLocation_def API_BASE_def)

section \<open>Properties of the click handler\<close>

lemma handleContentClick_internal:
  "newURL h = Some url \<Longrightarrow> h \<noteq> [] \<Longrightarrow>
   handleContentClick newURL (Some h) =
     (if isInternalLink newURL url
      then [PreventDefault, StopPropagation, Navigate (pathname url @ search url @ hash url)]
      else [])"
  by (simp add: handleContentClick_def)

lemma isInternalLink_rooted:
  "newURL API_BASE = Some base \<Longrightarrow> startsWith (pathname url) ''/'' \<Longrightarrow>
   isInternalLink newURL url"
  by (simp add: isInternalLink_def)

text \<open>
  Claim C2 says that a link to another origin is left to the browser. The handler is
  run here on a click on a link to \<open>https://example.com/page?x=1\<close>, with the values the
  \<open>URL\<close> constructor gives for that link and for the backend: the path of the link
  begins with a slash, as the path of every http URL does, so the second test of
  \<open>isInternalLink\<close> holds and the click is taken over.
\<close>

theorem handleContentClick_other_origin:
  "handleContentClick
     (\<lambda>s. if s = API_BASE
           then Some \<lparr>pathname = ''/'', search = '''', hash = '''',
                      origin = ''https://gcdev.m.frappe.cloud''\<rparr>
           else if s = ''https://example.com/page?x=1''
           then Some \<lparr>pathname = ''/page'', search = ''?x=1'', hash = '''',
                      origin = ''https://example.com''\<rparr>
           else None)
     (Some ''https://example.com/page?x=1'') =
   [PreventDefault, StopPropagation, Navigate ''/page?x=1'']"
  by (simp add: handleContentClick_def isInternalLink_def API_BASE_def startsWith_def)

section \<open>Properties of the navigation extraction\<close>

lemma pushLink_cases:
  "pushLink items link = (if keptLink link then items @ [linkItem link] else items)"
  by (simp add: pushLink_def keptLink_def linkItem_def Let_def split: option.splits)

lemma foldl_pushLink:
  "foldl pushLink items links = items @ map linkItem (filter keptLink links)"
  by (induction links arbitrary: items) (simp_all add: pushLink_cases)

lemma extractSidebarItems_container:
  "parseFromString html = Some doc \<Longrightarrow> sidebarContainer doc = Some container \<Longrightarrow>
   extractSidebarItems parseFromString html =
     map linkItem (filter keptLink (querySelectorAll (isTag ''a'') container))"
  by (simp add: extractSidebarItems_def extractSidebarItems_try_def foldl_pushLink)

lemma extractSidebarItems_items:
  "item \<in> set (extractSidebarItems parseFromString html) \<Longrightarrow>
   \<exists>link. keptLink link \<and> item = linkItem link"
  by (auto simp: extractSidebarItems_def extractSidebarItems_try_def foldl_pushLink
      split: option.splits)

lemma keptLink_item:
  "keptLink link \<Longrightarrow>
   href (linkItem link) \<noteq> [] \<and> linkText (linkItem link) \<noteq> [] \<and>
   \<not> includes_str (toLowerCase (linkText (linkItem link))) ''newsletter'' \<and>
   \<not> includes_str (href (linkItem link)) ''/newsletters''"
  by (auto simp: keptLink_def linkItem_def split: option.splits)

text \<open>
  Claim C8, as stated: no entry has \<open>newsletter\<close>, in any letter case, in its text or in
  its \<open>href\<close>. The document parsed from
  \<^verbatim>\<open><nav class=sidebar-items><a href=/app/newsletter-archive>Archive</a></nav>\<close>
  gives an entry whose \<open>href\<close> contains it: the code tests the \<open>href\<close> for
  \<open>/newsletters\<close> only, and as it is written.
\<close>

theorem extractSidebarItems_newsletter_counterexample:
  "extractSidebarItems
     (\<lambda>html. Some (Element ''html'' []
        [Element ''head'' [] [],
         Element ''body'' []
           [Element ''nav'' [(''class'', ''sidebar-items'')]
              [Element ''a'' [(''href'', ''/app/newsletter-archive'')] [Text ''Archive'']]]]))
     ''<nav class=sidebar-items><a href=/app/newsletter-archive>Archive</a></nav>'' =
     [\<lparr>href = ''/app/newsletter-archive'', linkText = ''Archive'', isActive = False\<rparr>] \<and>
   includes_str (toLowerCase ''/app/newsletter-archive'') ''newsletter''"
  by code_simp

text \<open>
  Claim C8, amended. No entry of the list has \<open>newsletter\<close>, in any letter case, in its
  text, nor \<open>/newsletters\<close>, as written, in its \<open>href\<close>, and no entry has an empty text
  or \<open>href\<close>; when a container is found, the list is made of all the other links below
  it, in document order, duplicates kept.
\<close>

theorem extractSidebarItems_filter:
  "(\<forall>item \<in> set (extractSidebarItems parseFromString html).
      href item \<noteq> [] \<and> linkText item \<noteq> [] \<and>
      \<not> includes_str (toLowerCase (linkText item)) ''newsletter'' \<and>
      \<not> includes_str (href item) ''/newsletters'') \<and>
   (\<forall>doc container.
      parseFromString html = Some doc \<and> sidebarContainer doc = Some container \<longrightarrow>
      extractSidebarItems parseFromString html =
        map linkItem (filter keptLink (querySelectorAll (isTag ''a'') container)))"
proof (rule conjI)
  show "\<forall>item \<in> set (extractSidebarItems parseFromString html).
      href item \<noteq> [] \<and> linkText item \<noteq> [] \<and>
      \<not> includes_str (toLowerCase (linkText item)) ''newsletter'' \<and>
      \<not> includes_str (href item) ''/newsletters''"
  proof (rule ballI)
    fix item assume "item \<in> set (extractSidebarItems parseFromString html)"
    then obtain link where "keptLink link" "item = linkItem link"
      using extractSidebarItems_items by blast
    then show "href item \<noteq> [] \<and> linkText item \<noteq> [] \<and>
        \<not> includes_str (toLowerCase (linkText item)) ''newsletter'' \<and>
        \<not> includes_str (href item) ''/newsletters''"
      using keptLink_item[of link] by simp
  qed
next
  show "\<forall>doc container.
      parseFromString html = Some doc \<and> sidebarContainer doc = Some container \<longrightarrow>
      extractSidebarItems parseFromString html =
        map linkItem (filter keptLink (querySelectorAll (isTag ''a'') container))"
    using extractSidebarItems_container by blast
qed

theorem extractSidebarItems_filter_witness:
  "extractSidebarItems
     (\<lambda>html. Some (Element ''html'' []
        [Element ''body'' []
           [Element ''nav'' [(''class'', ''sidebar-items'')]
              [Element ''a'' [(''href'', ''/app/orders'')] [Text '' Orders ''],
               Element ''a'' [(''href'', ''/newsletters/1'')] [Text ''Latest''],
               Element ''a'' [(''href'', ''/app/news'')] [Text ''NewsLetter''],
               Element ''a'' [(''href'', ''/app/orders''), (''class'', ''active'')]
                 [Text ''Orders'']]]]))
     ''<nav class=sidebar-items>...</nav>'' =
   [\<lparr>href = ''/app/orders'', linkText = ''Orders'', isActive = False\<rparr>,
    \<lparr>href = ''/app/orders'', linkText = ''Orders'', isActive = True\<rparr>]"
proof -
  define nav where "nav = Element ''nav'' [(''class'', ''sidebar-items'')]
              [Element ''a'' [(''href'', ''/app/orders'')] [Text '' Orders ''],
               Element ''a'' [(''href'', ''/newsletters/1'')] [Text ''Latest''],
               Element ''a'' [(''href'', ''/app/news'')] [Text ''NewsLetter''],
               Element ''a'' [(''href'', ''/app/orders''), (''class'', ''active'')]
                 [Text ''Orders'']]"
  define doc where "doc = Element ''html'' [] [Element ''body'' [] [nav]]"
  have c: "sidebarContainer doc = Some nav"
    unfolding doc_def nav_def by code_simp
  have l: "map linkItem (filter keptLink (querySelectorAll (isTag ''a'') nav)) =
     [\<lparr>href = ''/app/orders'', linkText = ''Orders'', isActive = False\<rparr>,
      \<lparr>href = ''/app/orders'', linkText = ''Orders'', isActive = True\<rparr>]"
    unfolding nav_def by code_simp
  have "extractSidebarItems (\<lambda>html. Some doc) ''<nav class=sidebar-items>...</nav>'' =
      map linkItem (filter keptLink (querySelectorAll (isTag ''a'') nav))"
    using extractSidebarItems_filter[of "\<lambda>html. Some doc" "''<nav class=sidebar-items>...</nav>''"] c
    by blast
  with l show ?thesis
    unfolding doc_def nav_def by simp
qed

section \<open>The two extractions never fail\<close>

text \<open>
  Claim C9. Both functions return a value on every input: the \<open>try\<close> body either gives
  its result, which is returned, or fails, and then the navigation list is empty and
  the content is the input as it came, with empty styles. A parser that fails makes
  the body fail. The list is empty too when the document has no container.
\<close>

theorem extraction_never_fails:
  "(parseFromString html = None \<longrightarrow>
      extractSidebarItems_try parseFromString html = Inl ParseFailure \<and>
      extractStylesAndContent_try parseFromString innerHTML html = Inl ParseFailure) \<and>
   (\<forall>e. extractSidebarItems_try parseFromString html = Inl e \<longrightarrow>
      extractSidebarItems parseFromString html = []) \<and>
   (\<forall>e. extractStylesAndContent_try parseFromString innerHTML html = Inl e \<longrightarrow>
      extractStylesAndContent parseFromString innerHTML html = \<lparr>content = html, styles = ''''\<rparr>) \<and>
   (\<forall>items. extractSidebarItems_try parseFromString html = Inr items \<longrightarrow>
      extractSidebarItems parseFromString html = items) \<and>
   (\<forall>r. extractStylesAndContent_try parseFromString innerHTML html = Inr r \<longrightarrow>
      extractStylesAndContent parseFromString innerHTML html = r) \<and>
   (\<forall>doc. parseFromString html = Some doc \<and> sidebarContainer doc = None \<longrightarrow>
      extractSidebarItems parseFromString html = [])"
  by (simp add: extractSidebarItems_def extractSidebarItems_try_def
      extractStylesAndContent_def extractStylesAndContent_try_def)

theorem extraction_never_fails_witness:
  "(\<forall>innerHTML.
      extractSidebarItems (\<lambda>html. None) ''<p>Hello'' = [] \<and>
      extractStylesAndContent (\<lambda>html. None) innerHTML ''<p>Hello'' =
        \<lparr>content = ''<p>Hello'', styles = ''''\<rparr>) \<and>
   sidebarContainer (Element ''html'' [] [Element ''body'' [] [Text ''Hello'']]) = None \<and>
   extractSidebarItems (\<lambda>html. Some (Element ''html'' [] [Element ''body'' [] [Text ''Hello'']]))
     ''Hello'' = []"
proof -
  have c: "sidebarContainer (Element ''html'' [] [Element ''body'' [] [Text ''Hello'']]) = None"
    by code_simp
  show ?thesis
    using c extraction_never_fails[of "\<lambda>html. None" "''<p>Hello''"]
      extraction_never_fails[of
        "\<lambda>html. Some (Element ''html'' [] [Element ''body'' [] [Text ''Hello'']])" "''Hello''"]
    by simp
qed

section \<open>Properties of the content extraction\<close>













section \<open>Properties of the style sanitizer\<close>

subsection \<open>The global replacement\<close>


lemma replaceAll_Nil: "replaceAll re rep [] = []"
  by (simp add: replaceAll_def)

lemma replaceAll_None:
  "re (c # cs) = None \<Longrightarrow> replaceAll re rep (c # cs) = c # replaceAll re rep cs"
  by (simp add: replaceAll_def)

lemma replaceAll_Some:
  "re s = Some rest \<Longrightarrow> length rest < length s \<Longrightarrow>
   replaceAll re rep s = rep @ replaceAll re rep rest"
  by (cases s) (simp_all add: replaceAll_def)

lemma replaceAll_induct [consumes 1, case_names Nil Copy Cut]:
  assumes consuming: "\<And>s rest. re s = Some rest \<Longrightarrow> length rest < length s"
    and nil: "P []"
    and copy: "\<And>c cs. re (c # cs) = None \<Longrightarrow> P cs \<Longrightarrow> P (c # cs)"
    and cut: "\<And>s rest. re s = Some rest \<Longrightarrow> length rest < length s \<Longrightarrow> P rest \<Longrightarrow> P s"
  shows "P s"
proof (induction s rule: length_induct)
  case (1 s)
  show ?case
  proof (cases s)
    case Nil
    with nil show ?thesis by simp
  next
    case (Cons c cs)
    show ?thesis
    proof (cases "re s")
      case None
      with Cons copy 1 show ?thesis by simp
    next
      case (Some rest)
      with consuming have "length rest < length s" by blast
      with Some cut 1 show ?thesis by blast
    qed
  qed
qed

lemma tails_set: "set (tails s) = {t. \<exists>p. s = p @ t}"
proof (induction s)
  case Nil
  then show ?case by simp
next
  case (Cons x xs)
  show ?case
  proof (rule set_eqI)
    fix t
    show "t \<in> set (tails (x # xs)) \<longleftrightarrow> t \<in> {t. \<exists>p. x # xs = p @ t}"
      using Cons by (auto simp: Cons_eq_append_conv)
  qed
qed

lemma tails_append: "t \<in> set (tails s) \<Longrightarrow> t \<in> set (tails (p @ s))"
  by (auto simp: tails_set)

lemma tails_self: "s \<in> set (tails s)"
  by (cases s) simp_all

lemma has_match_iff: "has_match re s \<longleftrightarrow> (\<exists>t \<in> set (tails s). re t \<noteq> None)"
  by (simp add: has_match_def list_ex_iff)

lemma replaceAll_id:
  "(\<And>t. t \<in> set (tails s) \<Longrightarrow> re t = None) \<Longrightarrow> replaceAll re rep s = s"
proof (induction s)
  case Nil
  then show ?case by (simp add: replaceAll_Nil)
next
  case (Cons c cs)
  have "re (c # cs) = None" using Cons.prems by simp
  moreover have "replaceAll re rep cs = cs" using Cons by simp
  ultimately show ?case by (simp add: replaceAll_None)
qed

lemma match_ci_Some:
  "match_ci nm s = Some r \<Longrightarrow>
   \<exists>p. s = p @ r \<and> length p = length nm \<and> map toLowerChar p = map toLowerChar nm"
proof (induction nm s rule: match_ci.induct)
  case (1 s)
  then show ?case by simp
next
  case (2 a as)
  then show ?case by simp
next
  case (3 a as c cs)
  then have eq: "toLowerChar c = toLowerChar a" and m: "match_ci as cs = Some r"
    by (auto split: if_splits)
  from 3(1)[OF eq m] obtain p where "cs = p @ r" "length p = length as"
    "map toLowerChar p = map toLowerChar as" by blast
  with eq have "c # cs = (c # p) @ r \<and> length (c # p) = length (a # as) \<and>
      map toLowerChar (c # p) = map toLowerChar (a # as)" by simp
  then show ?case by blast
qed

lemma dropWhile_split: "\<exists>w. r = w @ dropWhile P r"
  by (metis takeWhile_dropWhile_id)

lemma decl_re_Some:
  assumes "decl_re nm s = Some rest"
  shows "\<exists>chunk. s = chunk @ rest \<and> length nm < length chunk \<and>
           map toLowerChar (take (length nm) chunk) = map toLowerChar nm \<and>
           (rest \<noteq> [] \<longrightarrow> last chunk = CHR '';'')"
proof -
  from assms obtain r where r: "match_ci nm s = Some r"
    by (auto simp: decl_re_def split: option.splits)
  then obtain p where p: "s = p @ r" "length p = length nm"
    "map toLowerChar p = map toLowerChar nm"
    using match_ci_Some by blast
  define w where "w = takeWhile isSpace r"
  define r' where "r' = dropWhile isSpace r"
  have rsplit: "r = w @ r'" by (simp add: w_def r'_def)
  from assms r obtain v where v: "r' = CHR '':'' # v"
    and ne: "takeWhile (\<lambda>d. d \<noteq> CHR '';'') v \<noteq> []"
    and rest: "rest = (case dropWhile (\<lambda>d. d \<noteq> CHR '';'') v of [] \<Rightarrow> [] | semi # x \<Rightarrow> x)"
    unfolding r'_def
    by (auto simp: decl_re_def split: option.splits list.splits if_splits)
  define val where "val = takeWhile (\<lambda>d. d \<noteq> CHR '';'') v"
  define after where "after = dropWhile (\<lambda>d. d \<noteq> CHR '';'') v"
  have vsplit: "v = val @ after" by (simp add: val_def after_def)
  have rest2: "rest = (case after of [] \<Rightarrow> [] | semi # x \<Rightarrow> x)"
    using rest by (simp add: after_def)
  have s: "s = p @ w @ CHR '':'' # val @ after"
    by (simp add: p(1) rsplit v vsplit)
  show ?thesis
  proof (cases after)
    case Nil
    then have "rest = []" using rest2 by simp
    with s Nil p(2,3) show ?thesis
      by (intro exI[of _ "p @ w @ CHR '':'' # val"]) simp
  next
    case (Cons semi x)
    have "\<not> (hd after \<noteq> CHR '';'')"
      unfolding after_def by (rule hd_dropWhile) (use Cons after_def in simp)
    with Cons have semi: "semi = CHR '';''" by simp
    from Cons have "rest = x" using rest2 by simp
    with s Cons semi p(2,3) show ?thesis
      by (intro exI[of _ "p @ w @ CHR '':'' # val @ [semi]"]) simp
  qed
qed

lemma decl_re_consuming: "decl_re nm s = Some rest \<Longrightarrow> length rest < length s"
  using decl_re_Some[of nm s rest] by auto


subsection \<open>The declaration pattern as a reading of the text\<close>


lemma declTail_Nil_dropWhile:
  "declTail fin [] s = (case dropWhile isSpace s of [] \<Rightarrow> False | c # v \<Rightarrow> c = CHR '':'' \<and> fin v)"
proof (induction s)
  case Nil
  then show ?case by simp
next
  case (Cons c cs)
  have "\<not> isSpace (CHR '':'')" by (simp add: isSpace_def)
  with Cons show ?case by auto
qed

lemma valueStarts_takeWhile: "valueStarts v \<longleftrightarrow> takeWhile (\<lambda>d. d \<noteq> CHR '';'') v \<noteq> []"
  by (cases v) (simp_all add: valueStarts_def)

lemma decl_re_declTail: "(decl_re nm s \<noteq> None) = declTail valueStarts nm s"
proof (induction nm s rule: match_ci.induct)
  case (1 s)
  show ?case
  proof (cases "dropWhile isSpace s")
    case Nil
    show ?thesis
      unfolding decl_re_def declTail_Nil_dropWhile match_ci.simps option.case Nil by simp
  next
    case (Cons c v)
    show ?thesis
      unfolding decl_re_def declTail_Nil_dropWhile match_ci.simps option.case Cons
      by (simp add: valueStarts_takeWhile)
  qed
next
  case (2 a as)
  then show ?case by (simp add: decl_re_def)
next
  case (3 a as c cs)
  then show ?case by (simp add: decl_re_def)
qed

lemma declTail_mono:
  "declTail fin nm x \<Longrightarrow> (\<And>v. fin v \<Longrightarrow> fin' v) \<Longrightarrow> declTail fin' nm x"
  by (induction fin nm x rule: declTail.induct) (auto split: if_splits)

lemma declTail_nonempty: "declTail fin nm x \<Longrightarrow> x \<noteq> []"
  by (cases nm) auto

lemma proper_suffixes_tl:
  "x # nm \<in> set (proper_suffixes b) \<Longrightarrow> nm \<in> set (proper_suffixes b)"
  by (induction b) auto

lemma cutHead_iff:
  "cutHead b v \<longleftrightarrow> (\<exists>nm \<in> set (proper_suffixes b). declTail (\<lambda>_. True) nm v)"
  by (simp add: cutHead_def list_ex_iff)

lemma spliceFree_append: "spliceFree b (p @ s) \<Longrightarrow> spliceFree b s"
  by (induction p) auto

lemma spliceFree_semicolon:
  "spliceFree b (chunk @ rest) \<Longrightarrow> chunk \<noteq> [] \<Longrightarrow> last chunk = CHR '';'' \<Longrightarrow>
   \<not> cutHead b rest"
  by (induction chunk) (auto split: if_splits)

lemma toLowerChar_semicolon: "toLowerChar c = CHR '';'' \<longleftrightarrow> c = CHR '';''"
  by (auto simp: toLowerChar_def split: option.splits if_splits)


subsection \<open>What a removal pass can and cannot bring together\<close>

text \<open>
  A pass removes chunks of the text, and each chunk ends with a semicolon or with the
  text. A declaration head in the output either stood in the input as it is, or it
  runs across a place where a chunk was removed; then its end stands right after the
  semicolon of the chunk, as a cut head. Where the text has no cut head after a
  semicolon, every head in the output was a head in the input.
\<close>


lemma decl_pass_induct [case_names Nil Copy Cut]:
  assumes "P []"
    and "\<And>c cs. decl_re a (c # cs) = None \<Longrightarrow> P cs \<Longrightarrow> P (c # cs)"
    and "\<And>s rest. decl_re a s = Some rest \<Longrightarrow> length rest < length s \<Longrightarrow> P rest \<Longrightarrow> P s"
  shows "P s"
  using decl_re_consuming assms by (rule replaceAll_induct[where re = "decl_re a"])

lemma decl_pass_Some:
  "decl_re a s = Some rest \<Longrightarrow> replaceAll (decl_re a) [] s = replaceAll (decl_re a) [] rest"
proof -
  assume m: "decl_re a s = Some rest"
  then have "length rest < length s" by (rule decl_re_consuming)
  with m have "replaceAll (decl_re a) [] s = [] @ replaceAll (decl_re a) [] rest"
    by (rule replaceAll_Some[where re = "decl_re a"])
  then show ?thesis by simp
qed

lemma toLowerChar_semicolon_self: "toLowerChar (CHR '';'') = CHR '';''"
  using toLowerChar_semicolon by blast

lemma decl_re_first:
  assumes a: "a \<noteq> []" "toLowerChar (hd a) \<noteq> CHR '';''" and m: "decl_re a s = Some rest"
  shows "valueStarts s"
proof -
  from m have "declTail valueStarts a s"
    using decl_re_declTail[of a s] by simp
  with a obtain c cs where "s = c # cs" "toLowerChar c = toLowerChar (hd a)"
    by (cases a; cases s) auto
  with a(2) show ?thesis
    by (auto simp: valueStarts_def toLowerChar_semicolon_self)
qed

lemma valueStarts_pass:
  assumes a: "a \<noteq> []" "toLowerChar (hd a) \<noteq> CHR '';''"
  shows "valueStarts (replaceAll (decl_re a) [] s) \<Longrightarrow> valueStarts s"
proof (induction s rule: decl_pass_induct[where a = a])
  case Nil
  then show ?case by (simp add: replaceAll_Nil)
next
  case (Copy c cs)
  then show ?case by (simp add: replaceAll_None valueStarts_def)
next
  case (Cut s rest)
  from a Cut(1) show ?case by (rule decl_re_first)
qed

lemma declTail_pass:
  assumes a: "a \<noteq> []" "toLowerChar (hd a) \<noteq> CHR '';''"
    and fin: "\<And>s. fin (replaceAll (decl_re a) [] s) \<Longrightarrow> fin s"
  shows "spliceFree b s \<Longrightarrow> nm \<in> set (proper_suffixes b) \<Longrightarrow>
         declTail fin nm (replaceAll (decl_re a) [] s) \<Longrightarrow> declTail fin nm s"
proof (induction s arbitrary: nm rule: decl_pass_induct[where a = a])
  case Nil
  from Nil(3) show ?case by (simp only: replaceAll_Nil)
next
  case (Copy c cs)
  from Copy.prems(1) have sf: "spliceFree b cs" by simp
  have out: "replaceAll (decl_re a) [] (c # cs) = c # replaceAll (decl_re a) [] cs"
    using Copy.hyps by (rule replaceAll_None)
  show ?case
  proof (cases nm)
    case Nil
    show ?thesis
    proof (cases "c = CHR '':''")
      case True
      with Copy.prems(3) out Nil have "fin (replaceAll (decl_re a) [] cs)" by simp
      then have "fin cs" by (rule fin)
      with True Nil show ?thesis by simp
    next
      case False
      with Copy.prems(3) out Nil have sp: "isSpace c"
        and t: "declTail fin [] (replaceAll (decl_re a) [] cs)" by simp_all
      from Copy.prems(2) Nil have "[] \<in> set (proper_suffixes b)" by simp
      with sf have "declTail fin [] cs" using t by (rule Copy.IH)
      with sp show ?thesis using False Nil by simp
    qed
  next
    case (Cons x nm')
    with Copy.prems(3) out have eq: "toLowerChar c = toLowerChar x"
      and t: "declTail fin nm' (replaceAll (decl_re a) [] cs)" by simp_all
    from Copy.prems(2) have "x # nm' \<in> set (proper_suffixes b)"
      by (simp only: Cons)
    then have "nm' \<in> set (proper_suffixes b)"
      by (rule proper_suffixes_tl)
    with sf have "declTail fin nm' cs" using t by (rule Copy.IH)
    with eq Cons show ?thesis by simp
  qed
next
  case (Cut s rest)
  from decl_re_Some[OF Cut.hyps(1)] obtain chunk where chunk: "s = chunk @ rest"
    "length a < length chunk" "rest \<noteq> [] \<longrightarrow> last chunk = CHR '';''" by blast
  from Cut.prems(1) chunk(1) have sf: "spliceFree b rest"
    using spliceFree_append by blast
  have "replaceAll (decl_re a) [] s = replaceAll (decl_re a) [] rest"
    using decl_pass_Some[OF Cut.hyps(1)] by simp
  with Cut.prems(3) have "declTail fin nm (replaceAll (decl_re a) [] rest)" by simp
  with sf Cut.prems(2) have t: "declTail fin nm rest" by (rule Cut.IH)
  then have "rest \<noteq> []" by (rule declTail_nonempty)
  with chunk have l: "last chunk = CHR '';''" and ne: "chunk \<noteq> []" by auto
  from Cut.prems(1) have "spliceFree b (chunk @ rest)" by (simp only: chunk(1))
  then have no: "\<not> cutHead b rest" using ne l by (rule spliceFree_semicolon)
  from t have "declTail (\<lambda>_. True) nm rest"
    by (rule declTail_mono) simp
  with Cut.prems(2) have "cutHead b rest" unfolding cutHead_iff by (rule rev_bexI)
  with no show ?case by simp
qed

lemma spliceFree_pass:
  assumes a: "a \<noteq> []" "toLowerChar (hd a) \<noteq> CHR '';''"
  shows "spliceFree b s \<Longrightarrow> spliceFree b (replaceAll (decl_re a) [] s)"
proof (induction s rule: decl_pass_induct[where a = a])
  case Nil
  then show ?case by (simp add: replaceAll_Nil)
next
  case (Copy c cs)
  from Copy.prems have sf: "spliceFree b cs" by simp
  have out: "replaceAll (decl_re a) [] (c # cs) = c # replaceAll (decl_re a) [] cs"
    using Copy.hyps by (rule replaceAll_None)
  have "\<not> cutHead b (replaceAll (decl_re a) [] cs)" if c: "c = CHR '';''"
  proof
    assume "cutHead b (replaceAll (decl_re a) [] cs)"
    then obtain nm where nm: "nm \<in> set (proper_suffixes b)"
      "declTail (\<lambda>_. True) nm (replaceAll (decl_re a) [] cs)"
      by (auto simp: cutHead_iff)
    have "declTail (\<lambda>_. True) nm cs"
      by (rule declTail_pass[where fin = "\<lambda>_. True", OF a _ sf nm]) simp
    with nm(1) have "cutHead b cs" by (auto simp: cutHead_iff)
    with Copy.prems c show False by simp
  qed
  with Copy.IH[OF sf] out show ?case by simp
next
  case (Cut s rest)
  from decl_re_Some[OF Cut.hyps(1)] obtain chunk where "s = chunk @ rest" by blast
  with Cut.prems have "spliceFree b rest" using spliceFree_append by blast
  then have "spliceFree b (replaceAll (decl_re a) [] rest)" by (rule Cut.IH)
  then show ?case using decl_pass_Some[OF Cut.hyps(1)] by simp
qed

lemma no_decl_pass:
  assumes a: "a \<noteq> []" "toLowerChar (hd a) \<noteq> CHR '';''" and b: "b \<noteq> []"
  shows "spliceFree b s \<Longrightarrow>
         (\<And>t. t \<in> set (tails s) \<Longrightarrow> decl_re a t = None \<Longrightarrow> \<not> declTail valueStarts b t) \<Longrightarrow>
         t \<in> set (tails (replaceAll (decl_re a) [] s)) \<Longrightarrow> \<not> declTail valueStarts b t"
proof (induction s arbitrary: t rule: decl_pass_induct[where a = a])
  case Nil
  with b show ?case by (cases b) (simp_all add: replaceAll_Nil)
next
  case (Copy c cs)
  from Copy.prems(1) have sf: "spliceFree b cs" by simp
  have out: "replaceAll (decl_re a) [] (c # cs) = c # replaceAll (decl_re a) [] cs"
    using Copy.hyps by (rule replaceAll_None)
  from Copy.prems(3) out
  consider "t = c # replaceAll (decl_re a) [] cs" | "t \<in> set (tails (replaceAll (decl_re a) [] cs))"
    by auto
  then show ?case
  proof cases
    case 1
    show ?thesis
    proof
      assume t: "declTail valueStarts b t"
      from b obtain x bs where bx: "b = x # bs" by (cases b) auto
      with t 1 have eq: "toLowerChar c = toLowerChar x"
        and tl: "declTail valueStarts bs (replaceAll (decl_re a) [] cs)" by simp_all
      have bs: "bs \<in> set (proper_suffixes b)" using bx by simp
      have "declTail valueStarts bs cs"
        using a valueStarts_pass[OF a] sf bs tl
        by (rule declTail_pass[where fin = valueStarts])
      with eq bx have "declTail valueStarts b (c # cs)" by simp
      moreover have "c # cs \<in> set (tails (c # cs))" by simp
      ultimately show False using Copy.prems(2) Copy.hyps by blast
    qed
  next
    case 2
    show ?thesis
    proof (rule Copy.IH[OF sf _ 2])
      fix u assume "u \<in> set (tails cs)" "decl_re a u = None"
      then show "\<not> declTail valueStarts b u" using Copy.prems(2) by simp
    qed
  qed
next
  case (Cut s rest)
  from decl_re_Some[OF Cut.hyps(1)] obtain chunk where chunk: "s = chunk @ rest" by blast
  with Cut.prems(1) have sf: "spliceFree b rest" using spliceFree_append by blast
  from Cut.prems(3) have t: "t \<in> set (tails (replaceAll (decl_re a) [] rest))"
    using decl_pass_Some[OF Cut.hyps(1)] by simp
  show ?case
  proof (rule Cut.IH[OF sf _ t])
    fix u assume "u \<in> set (tails rest)" "decl_re a u = None"
    then show "\<not> declTail valueStarts b u"
      using Cut.prems(2) chunk tails_append by blast
  qed
qed


subsection \<open>The scale pass\<close>


lemma scale_value:
  "(takeWhile (\<lambda>d. d \<noteq> CHR '')'') r \<noteq> [] \<and> dropWhile (\<lambda>d. d \<noteq> CHR '')'') r \<noteq> []) =
   scaleTail [] r"
  by (cases r) auto

lemma scale_lit_scaleTail:
  "((case match_ci nm s of
       None \<Rightarrow> None
     | Some r \<Rightarrow>
         if takeWhile (\<lambda>d. d \<noteq> CHR '')'') r = [] then None
         else (case dropWhile (\<lambda>d. d \<noteq> CHR '')'') r of
                 [] \<Rightarrow> None
               | paren # rest \<Rightarrow> Some rest)) \<noteq> None) = scaleTail nm s"
proof (induction nm s rule: match_ci.induct)
  case (1 s)
  have "scaleTail [] s =
      (takeWhile (\<lambda>d. d \<noteq> CHR '')'') s \<noteq> [] \<and> dropWhile (\<lambda>d. d \<noteq> CHR '')'') s \<noteq> [])"
    by (simp only: scale_value)
  then show ?case
    by (cases "dropWhile (\<lambda>d. d \<noteq> CHR '')'') s") (simp_all del: dropWhile_eq_Nil_conv)
next
  case (2 a as)
  then show ?case by simp
next
  case (3 a as c cs)
  then show ?case by simp
qed

lemma scale_re_scaleTail: "(scale_re s \<noteq> None) = scaleTail ''scale('' s"
  unfolding scale_re_def by (rule scale_lit_scaleTail)

lemma scale_re_Some:
  assumes "scale_re s = Some rest"
  shows "\<exists>c mid. s = c # mid @ CHR '')'' # rest \<and> toLowerChar c = CHR ''s''"
proof -
  from assms obtain r where r: "match_ci ''scale('' s = Some r"
    by (auto simp: scale_re_def split: option.splits)
  then obtain p where p: "s = p @ r" "length p = length ''scale(''"
    "map toLowerChar p = map toLowerChar ''scale(''"
    using match_ci_Some by blast
  define val where "val = takeWhile (\<lambda>d. d \<noteq> CHR '')'') r"
  define after where "after = dropWhile (\<lambda>d. d \<noteq> CHR '')'') r"
  have rsplit: "r = val @ after" by (simp add: val_def after_def)
  from assms r obtain x where "dropWhile (\<lambda>d. d \<noteq> CHR '')'') r = x # rest"
    by (auto simp: scale_re_def split: option.splits list.splits if_splits)
  then have rest: "after = x # rest" by (simp only: after_def)
  have "\<not> (hd after \<noteq> CHR '')'')"
    unfolding after_def by (rule hd_dropWhile) (use rest after_def in simp)
  with rest have after: "after = CHR '')'' # rest" by simp
  from p(2,3) obtain c q where pq: "p = c # q" "toLowerChar c = toLowerChar (CHR ''s'')"
    by (cases p) auto
  then have "toLowerChar c = CHR ''s''" by (simp add: toLowerChar_def)
  moreover have "s = c # (q @ val) @ CHR '')'' # rest"
    by (simp add: p(1) pq(1) rsplit after)
  ultimately show ?thesis by blast
qed

lemma scale_re_consuming: "scale_re s = Some rest \<Longrightarrow> length rest < length s"
  using scale_re_Some[of s rest] by auto

lemma scale_pass_induct [case_names Nil Copy Cut]:
  assumes "P []"
    and "\<And>c cs. scale_re (c # cs) = None \<Longrightarrow> P cs \<Longrightarrow> P (c # cs)"
    and "\<And>s rest. scale_re s = Some rest \<Longrightarrow> length rest < length s \<Longrightarrow> P rest \<Longrightarrow> P s"
  shows "P s"
  using scale_re_consuming assms by (rule replaceAll_induct[where re = scale_re])

lemma scale_pass_Some:
  "scale_re s = Some rest \<Longrightarrow>
   replaceAll scale_re ''scale(1)'' s = ''scale(1)'' @ replaceAll scale_re ''scale(1)'' rest"
proof -
  assume m: "scale_re s = Some rest"
  then have "length rest < length s" by (rule scale_re_consuming)
  with m show ?thesis by (rule replaceAll_Some[where re = scale_re])
qed

lemma toLowerChar_s_not_special:
  "toLowerChar c = CHR ''s'' \<Longrightarrow> c \<noteq> CHR '';'' \<and> c \<noteq> CHR '')''"
  by (auto simp: toLowerChar_def)

lemma valueStarts_scale_pass:
  "valueStarts (replaceAll scale_re ''scale(1)'' s) \<Longrightarrow> valueStarts s"
proof (induction s rule: scale_pass_induct)
  case Nil
  then show ?case by (simp only: replaceAll_Nil)
next
  case (Copy c cs)
  then show ?case by (simp add: replaceAll_None valueStarts_def)
next
  case (Cut s rest)
  from scale_re_Some[OF Cut.hyps(1)] obtain c mid where
    "s = c # mid @ CHR '')'' # rest" "toLowerChar c = CHR ''s''" by blast
  then show ?case using toLowerChar_s_not_special[of c] by (simp add: valueStarts_def)
qed

lemma declTail_scale_pass:
  assumes bad: "\<And>nm x. nm \<in> set (proper_suffixes b) \<Longrightarrow>
                  \<not> declTail valueStarts nm (''scale(1)'' @ x)"
  shows "nm \<in> set (proper_suffixes b) \<Longrightarrow>
         declTail valueStarts nm (replaceAll scale_re ''scale(1)'' s) \<Longrightarrow>
         declTail valueStarts nm s"
proof (induction s arbitrary: nm rule: scale_pass_induct)
  case Nil
  from Nil(2) show ?case by (simp only: replaceAll_Nil)
next
  case (Copy c cs)
  have out: "replaceAll scale_re ''scale(1)'' (c # cs) = c # replaceAll scale_re ''scale(1)'' cs"
    using Copy.hyps by (rule replaceAll_None)
  show ?case
  proof (cases nm)
    case Nil
    show ?thesis
    proof (cases "c = CHR '':''")
      case True
      with Copy.prems(2) out Nil have "valueStarts (replaceAll scale_re ''scale(1)'' cs)" by simp
      then have "valueStarts cs" by (rule valueStarts_scale_pass)
      with True Nil show ?thesis by simp
    next
      case False
      with Copy.prems(2) out Nil have sp: "isSpace c"
        and t: "declTail valueStarts [] (replaceAll scale_re ''scale(1)'' cs)" by simp_all
      from Copy.prems(1) Nil have "[] \<in> set (proper_suffixes b)" by simp
      then have "declTail valueStarts [] cs" using t by (rule Copy.IH)
      with sp show ?thesis using False Nil by simp
    qed
  next
    case (Cons x nm')
    with Copy.prems(2) out have eq: "toLowerChar c = toLowerChar x"
      and t: "declTail valueStarts nm' (replaceAll scale_re ''scale(1)'' cs)" by simp_all
    from Copy.prems(1) have "x # nm' \<in> set (proper_suffixes b)"
      by (simp only: Cons)
    then have "nm' \<in> set (proper_suffixes b)"
      by (rule proper_suffixes_tl)
    then have "declTail valueStarts nm' cs" using t by (rule Copy.IH)
    with eq Cons show ?thesis by simp
  qed
next
  case (Cut s rest)
  from Cut.prems(2) have "declTail valueStarts nm
      (''scale(1)'' @ replaceAll scale_re ''scale(1)'' rest)"
    by (simp only: scale_pass_Some[OF Cut.hyps(1)])
  with bad[OF Cut.prems(1)] show ?case by blast
qed

lemma tails_append_cases:
  "t \<in> set (tails (p @ q)) \<Longrightarrow>
   (\<exists>u. u \<in> set (tails p) \<and> u \<noteq> [] \<and> t = u @ q) \<or> t \<in> set (tails q)"
  by (induction p) auto

lemma no_decl_scale_pass:
  assumes b: "b \<noteq> []"
    and bad: "\<And>nm x. nm \<in> set (proper_suffixes b) \<Longrightarrow>
                  \<not> declTail valueStarts nm (''scale(1)'' @ x)"
    and bad2: "\<And>u x. u \<in> set (tails ''scale(1)'') \<Longrightarrow> u \<noteq> [] \<Longrightarrow>
                  \<not> declTail valueStarts b (u @ x)"
  shows "(\<And>t. t \<in> set (tails s) \<Longrightarrow> \<not> declTail valueStarts b t) \<Longrightarrow>
         t \<in> set (tails (replaceAll scale_re ''scale(1)'' s)) \<Longrightarrow>
         \<not> declTail valueStarts b t"
proof (induction s arbitrary: t rule: scale_pass_induct)
  case Nil
  with b show ?case by (cases b) (simp_all add: replaceAll_Nil)
next
  case (Copy c cs)
  have out: "replaceAll scale_re ''scale(1)'' (c # cs) = c # replaceAll scale_re ''scale(1)'' cs"
    using Copy.hyps by (rule replaceAll_None)
  from Copy.prems(2) out
  consider "t = c # replaceAll scale_re ''scale(1)'' cs"
    | "t \<in> set (tails (replaceAll scale_re ''scale(1)'' cs))"
    by auto
  then show ?case
  proof cases
    case 1
    show ?thesis
    proof
      assume t: "declTail valueStarts b t"
      from b obtain x bs where bx: "b = x # bs" by (cases b) auto
      with t 1 have eq: "toLowerChar c = toLowerChar x"
        and tl: "declTail valueStarts bs (replaceAll scale_re ''scale(1)'' cs)" by simp_all
      have bs: "bs \<in> set (proper_suffixes b)" using bx by simp
      have "declTail valueStarts bs cs"
        using bad bs tl by (rule declTail_scale_pass)
      with eq bx have "declTail valueStarts b (c # cs)" by simp
      moreover have "c # cs \<in> set (tails (c # cs))" by simp
      ultimately show False using Copy.prems(1) by blast
    qed
  next
    case 2
    show ?thesis
    proof (rule Copy.IH[OF _ 2])
      fix u assume "u \<in> set (tails cs)"
      then show "\<not> declTail valueStarts b u" using Copy.prems(1) by simp
    qed
  qed
next
  case (Cut s rest)
  from scale_re_Some[OF Cut.hyps(1)] obtain c mid where
    s: "s = (c # mid @ [CHR '')'']) @ rest" by auto
  from Cut.prems(2) have "t \<in> set (tails (''scale(1)'' @ replaceAll scale_re ''scale(1)'' rest))"
    by (simp only: scale_pass_Some[OF Cut.hyps(1)])
  then consider u where "u \<in> set (tails ''scale(1)'')" "u \<noteq> []"
      "t = u @ replaceAll scale_re ''scale(1)'' rest"
    | "t \<in> set (tails (replaceAll scale_re ''scale(1)'' rest))"
    using tails_append_cases by blast
  then show ?case
  proof cases
    case 1
    then show ?thesis using bad2 by blast
  next
    case 2
    show ?thesis
    proof (rule Cut.IH[OF _ 2])
      fix u assume "u \<in> set (tails rest)"
      then have "u \<in> set (tails s)" unfolding s by (rule tails_append)
      then show "\<not> declTail valueStarts b u" by (rule Cut.prems(1))
    qed
  qed
qed

lemma closes_scale_pass:
  "CHR '')'' \<in> set (replaceAll scale_re ''scale(1)'' s) \<Longrightarrow> CHR '')'' \<in> set s"
proof (induction s rule: scale_pass_induct)
  case Nil
  then show ?case by (simp add: replaceAll_Nil)
next
  case (Copy c cs)
  then show ?case by (auto simp: replaceAll_None)
next
  case (Cut s rest)
  from scale_re_Some[OF Cut.hyps(1)] obtain c mid where
    "s = c # mid @ CHR '')'' # rest" by blast
  then show ?case by simp
qed

lemma scaleTail_scale_pass:
  "nm \<in> set (proper_suffixes ''scale('') \<Longrightarrow>
   scaleTail nm (replaceAll scale_re ''scale(1)'' s) \<Longrightarrow> scaleTail nm s"
proof (induction s arbitrary: nm rule: scale_pass_induct)
  case Nil
  from Nil(2) show ?case by (simp only: replaceAll_Nil)
next
  case (Copy c cs)
  have out: "replaceAll scale_re ''scale(1)'' (c # cs) = c # replaceAll scale_re ''scale(1)'' cs"
    using Copy.hyps by (rule replaceAll_None)
  show ?case
  proof (cases nm)
    case Nil
    with Copy.prems(2) out have "c \<noteq> CHR '')''"
      and "CHR '')'' \<in> set (replaceAll scale_re ''scale(1)'' cs)" by simp_all
    from this(1) closes_scale_pass[OF this(2)] Nil show ?thesis by simp
  next
    case (Cons x nm')
    with Copy.prems(2) out have eq: "toLowerChar c = toLowerChar x"
      and t: "scaleTail nm' (replaceAll scale_re ''scale(1)'' cs)" by simp_all
    from Copy.prems(1) have "x # nm' \<in> set (proper_suffixes ''scale('')"
      by (simp only: Cons)
    then have "nm' \<in> set (proper_suffixes ''scale('')"
      by (rule proper_suffixes_tl)
    then have "scaleTail nm' cs" using t by (rule Copy.IH)
    with eq Cons show ?thesis by simp
  qed
next
  case (Cut s rest)
  from scale_re_Some[OF Cut.hyps(1)] obtain c mid where
    s: "s = c # mid @ CHR '')'' # rest" and c: "toLowerChar c = CHR ''s''" by blast
  from Cut.prems(2) have t: "scaleTail nm (''scale(1)'' @ replaceAll scale_re ''scale(1)'' rest)"
    by (simp only: scale_pass_Some[OF Cut.hyps(1)])
  from Cut.prems(1) consider "nm = []" | "nm \<noteq> []" "nm \<in> set (proper_suffixes ''scale('')"
    by blast
  then show ?case
  proof cases
    case 1
    with s c show ?thesis using toLowerChar_s_not_special[of c] by simp
  next
    case 2
    with t have False by (auto simp: toLowerChar_def)
    then show ?thesis ..
  qed
qed

lemma scale_re_scale1: "scale_re (''scale(1)'' @ y) = Some y"
  by (simp add: scale_re_def toLowerChar_def)

lemma scale_re_inside:
  "u \<in> set (tails ''scale(1)'') \<Longrightarrow> u \<noteq> [] \<Longrightarrow> u \<noteq> ''scale(1)'' \<Longrightarrow> scale_re (u @ y) = None"
  by (auto simp: scale_re_def toLowerChar_def)

text \<open>Every match of the scale pattern in the output of the last pass is \<open>scale(1)\<close>.\<close>

lemma scale_pass_only_one:
  "t \<in> set (tails (replaceAll scale_re ''scale(1)'' s)) \<Longrightarrow> scale_re t = Some rest \<Longrightarrow>
   t = ''scale(1)'' @ rest"
proof (induction s arbitrary: t rule: scale_pass_induct)
  case Nil
  then show ?case by (simp add: replaceAll_Nil scale_re_def)
next
  case (Copy c cs)
  have out: "replaceAll scale_re ''scale(1)'' (c # cs) = c # replaceAll scale_re ''scale(1)'' cs"
    using Copy.hyps by (rule replaceAll_None)
  from Copy.prems(1) out
  consider "t = c # replaceAll scale_re ''scale(1)'' cs"
    | "t \<in> set (tails (replaceAll scale_re ''scale(1)'' cs))"
    by auto
  then show ?case
  proof cases
    case 1
    from Copy.prems(2) have "scaleTail ''scale('' t"
      using scale_re_scaleTail[of t] by simp
    with 1 have eq: "toLowerChar c = toLowerChar (CHR ''s'')"
      and tl: "scaleTail ''cale('' (replaceAll scale_re ''scale(1)'' cs)" by simp_all
    have "''cale('' \<in> set (proper_suffixes ''scale('')" by simp
    then have "scaleTail ''cale('' cs" using tl by (rule scaleTail_scale_pass)
    with eq have "scaleTail ''scale('' (c # cs)" by simp
    then have "scale_re (c # cs) \<noteq> None" by (simp only: scale_re_scaleTail)
    with Copy.hyps show ?thesis by simp
  next
    case 2
    then show ?thesis using Copy.prems(2) by (rule Copy.IH)
  qed
next
  case (Cut s rest0)
  from Cut.prems(1) have "t \<in> set (tails (''scale(1)'' @ replaceAll scale_re ''scale(1)'' rest0))"
    by (simp only: scale_pass_Some[OF Cut.hyps(1)])
  then consider u where "u \<in> set (tails ''scale(1)'')" "u \<noteq> []"
      "t = u @ replaceAll scale_re ''scale(1)'' rest0"
    | "t \<in> set (tails (replaceAll scale_re ''scale(1)'' rest0))"
    using tails_append_cases by blast
  then show ?case
  proof cases
    case 1
    show ?thesis
    proof (cases "u = ''scale(1)''")
      case True
      with 1(3) Cut.prems(2) show ?thesis by (simp only: scale_re_scale1) simp
    next
      case False
      with 1(1,2) have "scale_re (u @ replaceAll scale_re ''scale(1)'' rest0) = None"
        by (rule scale_re_inside)
      then have "scale_re t = None" by (simp only: 1(3))
      with Cut.prems(2) show ?thesis by simp
    qed
  next
    case 2
    then show ?thesis using Cut.prems(2) by (rule Cut.IH)
  qed
qed


subsection \<open>The seven passes together\<close>


lemma declTail_drop_prefix:
  "declTail fin (p @ nm) t \<Longrightarrow> declTail fin nm (drop (length p) t)"
proof (induction p arbitrary: t)
  case Nil
  then show ?case by simp
next
  case (Cons x p)
  then show ?case by (cases t) simp_all
qed

lemma drop_in_tails: "drop n t \<in> set (tails t)"
  unfolding tails_set using append_take_drop_id[of n t] by (metis (mono_tags, lifting) mem_Collect_eq)

lemma tails_trans: "u \<in> set (tails t) \<Longrightarrow> t \<in> set (tails s) \<Longrightarrow> u \<in> set (tails s)"
  by (auto simp: tails_set)

lemma no_prefixed_decl:
  assumes "\<And>t. t \<in> set (tails s) \<Longrightarrow> \<not> declTail valueStarts b t"
  shows "t \<in> set (tails s) \<Longrightarrow> decl_re (p @ b) t = None"
proof (rule ccontr)
  assume t: "t \<in> set (tails s)" and "decl_re (p @ b) t \<noteq> None"
  then have "declTail valueStarts (p @ b) t" by (simp only: decl_re_declTail)
  then have "declTail valueStarts b (drop (length p) t)" by (rule declTail_drop_prefix)
  moreover have "drop (length p) t \<in> set (tails s)"
    using drop_in_tails t by (rule tails_trans)
  ultimately show False using assms by blast
qed

lemma vendor_pass_id:
  assumes "\<And>t. t \<in> set (tails s) \<Longrightarrow> \<not> declTail valueStarts b t"
  shows "replaceAll (decl_re (p @ b)) [] s = s"
  by (rule replaceAll_id) (rule no_prefixed_decl[OF assms])

lemma toLowerChar_eval:
  "toLowerChar (CHR ''t'') = CHR ''t''" "toLowerChar (CHR ''r'') = CHR ''r''"
  "toLowerChar (CHR ''a'') = CHR ''a''" "toLowerChar (CHR ''n'') = CHR ''n''"
  "toLowerChar (CHR ''s'') = CHR ''s''" "toLowerChar (CHR ''f'') = CHR ''f''"
  "toLowerChar (CHR ''o'') = CHR ''o''" "toLowerChar (CHR ''m'') = CHR ''m''"
  "toLowerChar (CHR ''z'') = CHR ''z''" "toLowerChar (CHR ''c'') = CHR ''c''"
  "toLowerChar (CHR ''l'') = CHR ''l''" "toLowerChar (CHR ''e'') = CHR ''e''"
  "toLowerChar (CHR ''('') = CHR ''(''" "toLowerChar (CHR '')'') = CHR '')''"
  "toLowerChar (CHR ''1'') = CHR ''1''"
  by (simp_all add: toLowerChar_def)

lemma transform_no_scale1:
  "nm \<in> set (proper_suffixes ''transform'') \<Longrightarrow> \<not> declTail valueStarts nm (''scale(1)'' @ x)"
  by (auto simp: toLowerChar_eval isSpace_def)

lemma zoom_no_scale1:
  "nm \<in> set (proper_suffixes ''zoom'') \<Longrightarrow> \<not> declTail valueStarts nm (''scale(1)'' @ x)"
  by (auto simp: toLowerChar_eval isSpace_def)

lemma transform_not_in_scale1:
  "u \<in> set (tails ''scale(1)'') \<Longrightarrow> u \<noteq> [] \<Longrightarrow> \<not> declTail valueStarts ''transform'' (u @ x)"
  by (auto simp: toLowerChar_eval)

lemma zoom_not_in_scale1:
  "u \<in> set (tails ''scale(1)'') \<Longrightarrow> u \<noteq> [] \<Longrightarrow> \<not> declTail valueStarts ''zoom'' (u @ x)"
  by (auto simp: toLowerChar_eval)

lemma name_ok:
  "''transform'' \<noteq> []" "toLowerChar (hd ''transform'') \<noteq> CHR '';''"
  "''zoom'' \<noteq> []" "toLowerChar (hd ''zoom'') \<noteq> CHR '';''"
  by (simp_all add: toLowerChar_eval)

lemma sanitizeStyles_no_decl:
  assumes sft: "spliceFree ''transform'' css" and sfz: "spliceFree ''zoom'' css"
    and t: "t \<in> set (tails (sanitizeStyles css))"
  shows "\<not> declTail valueStarts ''transform'' t \<and> \<not> declTail valueStarts ''zoom'' t"
proof -
  define s1 where "s1 = replaceAll (decl_re ''transform'') [] css"
  define s6 where "s6 = replaceAll (decl_re ''zoom'') [] s1"
  have t1: "\<not> declTail valueStarts ''transform'' u" if "u \<in> set (tails s1)" for u
    using name_ok(1,2,1) sft _ that[unfolded s1_def]
    by (rule no_decl_pass) (simp only: decl_re_declTail[symmetric], simp)
  have sft1: "spliceFree ''transform'' s1" unfolding s1_def
    using name_ok(1,2) sft by (rule spliceFree_pass)
  have sfz1: "spliceFree ''zoom'' s1" unfolding s1_def
    using name_ok(1,2) sfz by (rule spliceFree_pass)
  have v: "replaceAll (decl_re (p @ ''transform'')) [] s1 = s1" for p
    by (rule vendor_pass_id) (rule t1)
  have s6: "sanitizeStyles css = replaceAll scale_re ''scale(1)'' s6"
    using v[of "''-webkit-''"] v[of "''-moz-''"] v[of "''-ms-''"] v[of "''-o-''"]
    by (simp add: sanitizeStyles_def s6_def s1_def)
  have t6: "\<not> declTail valueStarts ''transform'' u" if "u \<in> set (tails s6)" for u
    using name_ok(3,4,1) sft1 _ that[unfolded s6_def]
    by (rule no_decl_pass) (rule t1)
  have z6: "\<not> declTail valueStarts ''zoom'' u" if "u \<in> set (tails s6)" for u
    using name_ok(3,4,3) sfz1 _ that[unfolded s6_def]
    by (rule no_decl_pass) (simp only: decl_re_declTail[symmetric], simp)
  from t have t7: "t \<in> set (tails (replaceAll scale_re ''scale(1)'' s6))"
    by (simp only: s6)
  have "\<not> declTail valueStarts ''transform'' t"
    using name_ok(1) transform_no_scale1 transform_not_in_scale1 t6 t7
    by (rule no_decl_scale_pass)
  moreover have "\<not> declTail valueStarts ''zoom'' t"
    using name_ok(3) zoom_no_scale1 zoom_not_in_scale1 z6 t7
    by (rule no_decl_scale_pass)
  ultimately show ?thesis ..
qed

lemma has_match_decl:
  "has_match (decl_re b) s \<longleftrightarrow> (\<exists>t \<in> set (tails s). declTail valueStarts b t)"
  by (simp only: has_match_iff decl_re_declTail)

lemma has_match_prefixed:
  "has_match (decl_re (p @ b)) s \<Longrightarrow> has_match (decl_re b) s"
  unfolding has_match_decl
  using declTail_drop_prefix drop_in_tails tails_trans by blast






text \<open>
  Claim C5, as stated: the output of the sanitizer holds no declaration of
  \<open>transform\<close>, whatever the input. Each pattern is applied once, from left to
  right: in \<open>transtransform:none;form:rotate(9deg);\<close> the first pass removes
  \<open>transform:none;\<close>, and what stood on either side of it makes a declaration of
  \<open>transform\<close> that no later pass removes.
\<close>

theorem sanitizeStyles_splice_counterexample:
  "sanitizeStyles ''transtransform:none;form:rotate(9deg);'' = ''transform:rotate(9deg);'' \<and>
   has_match (decl_re ''transform'') (sanitizeStyles ''transtransform:none;form:rotate(9deg);'')"
  by code_simp

text \<open>
  Claim C5, amended. For every style text, every occurrence of the scale pattern in
  the output is \<open>scale(1)\<close>. For every style text in which no semicolon is directly
  followed by a cut head of \<open>transform\<close> or of \<open>zoom\<close> (the end of the name, or nothing
  of it, then optional white space and a colon), the output holds no occurrence of
  the declaration pattern of \<open>transform\<close>, of its four prefixed variants or of
  \<open>zoom\<close>, in any letter case.
\<close>

theorem sanitizeStyles_output:
  "(spliceFree ''transform'' css \<and> spliceFree ''zoom'' css \<longrightarrow>
      \<not> has_match (decl_re ''transform'') (sanitizeStyles css) \<and>
      \<not> has_match (decl_re ''-webkit-transform'') (sanitizeStyles css) \<and>
      \<not> has_match (decl_re ''-moz-transform'') (sanitizeStyles css) \<and>
      \<not> has_match (decl_re ''-ms-transform'') (sanitizeStyles css) \<and>
      \<not> has_match (decl_re ''-o-transform'') (sanitizeStyles css) \<and>
      \<not> has_match (decl_re ''zoom'') (sanitizeStyles css)) \<and>
   (\<forall>t rest. t \<in> set (tails (sanitizeStyles css)) \<and> scale_re t = Some rest \<longrightarrow>
      t = ''scale(1)'' @ rest)"
proof (intro conjI impI allI)
  assume sf: "spliceFree ''transform'' css \<and> spliceFree ''zoom'' css"
  then have none: "\<And>t. t \<in> set (tails (sanitizeStyles css)) \<Longrightarrow>
      \<not> declTail valueStarts ''transform'' t \<and> \<not> declTail valueStarts ''zoom'' t"
    using sanitizeStyles_no_decl by blast
  then show t: "\<not> has_match (decl_re ''transform'') (sanitizeStyles css)"
    unfolding has_match_decl by blast
  from none show "\<not> has_match (decl_re ''zoom'') (sanitizeStyles css)"
    unfolding has_match_decl by blast
  from t show "\<not> has_match (decl_re ''-webkit-transform'') (sanitizeStyles css)"
    using has_match_prefixed[of "''-webkit-''" "''transform''"] by auto
  from t show "\<not> has_match (decl_re ''-moz-transform'') (sanitizeStyles css)"
    using has_match_prefixed[of "''-moz-''" "''transform''"] by auto
  from t show "\<not> has_match (decl_re ''-ms-transform'') (sanitizeStyles css)"
    using has_match_prefixed[of "''-ms-''" "''transform''"] by auto
  from t show "\<not> has_match (decl_re ''-o-transform'') (sanitizeStyles css)"
    using has_match_prefixed[of "''-o-''" "''transform''"] by auto
next
  fix t rest
  assume "t \<in> set (tails (sanitizeStyles css)) \<and> scale_re t = Some rest"
  then show "t = ''scale(1)'' @ rest"
    unfolding sanitizeStyles_def using scale_pass_only_one by blast
qed

theorem sanitizeStyles_output_witness:
  "spliceFree ''transform'' ''a{color:red; Transform : rotate(3deg); ZOOM:2;top:SCALE(2.5)}'' \<and>
   spliceFree ''zoom'' ''a{color:red; Transform : rotate(3deg); ZOOM:2;top:SCALE(2.5)}'' \<and>
   sanitizeStyles ''a{color:red; Transform : rotate(3deg); ZOOM:2;top:SCALE(2.5)}'' =
     ''a{color:red;  top:scale(1)}'' \<and>
   \<not> has_match (decl_re ''transform'')
        (sanitizeStyles ''a{color:red; Transform : rotate(3deg); ZOOM:2;top:SCALE(2.5)}'') \<and>
   \<not> has_match (decl_re ''zoom'')
        (sanitizeStyles ''a{color:red; Transform : rotate(3deg); ZOOM:2;top:SCALE(2.5)}'')"
proof -
  have t: "spliceFree ''transform'' ''a{color:red; Transform : rotate(3deg); ZOOM:2;top:SCALE(2.5)}''"
    by code_simp
  have z: "spliceFree ''zoom'' ''a{color:red; Transform : rotate(3deg); ZOOM:2;top:SCALE(2.5)}''"
    by code_simp
  have e: "sanitizeStyles ''a{color:red; Transform : rotate(3deg); ZOOM:2;top:SCALE(2.5)}'' =
     ''a{color:red;  top:scale(1)}''"
    by code_simp
  from t z e
    sanitizeStyles_output[of "''a{color:red; Transform : rotate(3deg); ZOOM:2;top:SCALE(2.5)}''"]
  show ?thesis by blast
qed

end
